theory Spec2Isabelle
  imports Main "HOL-Library.Word" "HOL-Library.Sublist"
begin

section \<open>JavaScript strings\<close>

text \<open>
  A JavaScript string is a sequence of 16-bit code units. Every string operation used by
  \<^verbatim>\<open>handleChatSubmit\<close> (\<^verbatim>\<open>split\<close>, \<^verbatim>\<open>trim\<close>, \<^verbatim>\<open>startsWith\<close>,
  \<^verbatim>\<open>substring\<close>, \<^verbatim>\<open>replace\<close> with a non-unicode regular expression) works on code units.
  \<open>js\<close> writes an ASCII literal of the source as such a sequence.
\<close>

type_synonym jschar = "16 word"
type_synonym jsstring = "jschar list"

definition js :: "string \<Rightarrow> jsstring" where
  "js s = map (\<lambda>c. of_nat (of_char c)) s"

definition LF :: jschar where
  "LF = 0x0A"

definition BACKSLASH :: jschar where
  "BACKSLASH = 0x5C"

definition LETTER_n :: jschar where
  "LETTER_n = 0x6E"

text \<open>
  \<^verbatim>\<open>String.prototype.trim\<close> removes WhiteSpace and LineTerminator code points
  (ECMAScript: TAB, VT, FF, ZWNBSP, the space separators Zs, LF, CR, LS, PS) from both ends.
\<close>

definition is_ws :: "jschar \<Rightarrow> bool" where
  "is_ws c \<longleftrightarrow>
     c = 0x0009 \<or> c = 0x000A \<or> c = 0x000B \<or> c = 0x000C \<or> c = 0x000D \<or> c = 0x0020 \<or>
     c = 0x00A0 \<or> c = 0x1680 \<or> (0x2000 \<le> c \<and> c \<le> 0x200A) \<or> c = 0x2028 \<or> c = 0x2029 \<or>
     c = 0x202F \<or> c = 0x205F \<or> c = 0x3000 \<or> c = 0xFEFF"

definition trim :: "jsstring \<Rightarrow> jsstring" where
  "trim s = rev (dropWhile is_ws (rev (dropWhile is_ws s)))"

definition startsWith :: "jsstring \<Rightarrow> jsstring \<Rightarrow> bool" where
  "startsWith s p = prefix p s"

text \<open>
  \<^verbatim>\<open>s.split('\n\n')\<close>: the separator is searched from left to right, each match closes a
  segment and the search resumes after the match; the text after the last match is the
  last segment. The result is never empty: the empty string splits into one empty segment.
\<close>

fun split :: "jsstring \<Rightarrow> jsstring list" where
  "split [] = [[]]"
| "split [a] = [[a]]"
| "split (a # b # s) =
     (if a = LF \<and> b = LF then [] # split s
      else (let r = split (b # s) in (a # hd r) # tl r))"

text \<open>
  \<^verbatim>\<open>s.replace(/\\n/g, '\n')\<close>: every match of backslash followed by the letter n, found
  from left to right without overlap, becomes one line feed.
\<close>

fun unescape :: "jsstring \<Rightarrow> jsstring" where
  "unescape (a # b # s) =
     (if a = BACKSLASH \<and> b = LETTER_n then LF # unescape s else a # unescape (b # s))"
| "unescape s = s"

section \<open>Chat history and session state\<close>

datatype role = User | Ai

text \<open>
  A chat message object. The property \<^verbatim>\<open>isStreaming\<close> is absent from completed and
  error messages; an absent property reads as \<^verbatim>\<open>undefined\<close>, which is falsy, and is
  \<open>False\<close> here.
\<close>

record message =
  role :: role
  content :: jsstring
  isStreaming :: bool

datatype log_entry = LogStatus jsstring | LogChatError

text \<open>
  The updater functions that the branch passes to \<^verbatim>\<open>setChatHistory\<close>:
  \<open>AppendMessage m\<close> is \<^verbatim>\<open>prev => [...prev, m]\<close> (lines 284 and 361-364),
  \<open>ShowStreaming\<close> is the updater of lines 308-315 and \<open>ShowComplete\<close> the one of lines
  344-351. The last two read the variable \<^verbatim>\<open>aiResponse\<close> of the enclosing block, which
  the loop goes on assigning: they see the value it has when they are called, not the
  value it had when they were passed to \<^verbatim>\<open>setChatHistory\<close>.
\<close>

datatype updater = AppendMessage message | ShowStreaming | ShowComplete

text \<open>
  The state of the handler: its local variables \<^verbatim>\<open>aiResponse\<close>, \<^verbatim>\<open>buffer\<close> and
  \<^verbatim>\<open>statusMsg\<close>, the updaters it has passed to \<^verbatim>\<open>setChatHistory\<close> so far, in the order
  of the calls, and the console output. The handler never reads \<^verbatim>\<open>chatHistory\<close>;
  \<^verbatim>\<open>setChatHistory\<close> only hands the updater to React.
\<close>

record session =
  aiResponse :: jsstring
  buffer :: jsstring
  statusMsg :: jsstring
  calls :: "updater list"
  console :: "log_entry list"

definition setChatHistory :: "updater \<Rightarrow> session \<Rightarrow> session" where
  "setChatHistory u s = s\<lparr>calls := calls s @ [u]\<rparr>"

text \<open>
  The updater of lines 308-315 and 344-351: the last message is replaced when it is an
  assistant message, and the history is returned as it is otherwise.
\<close>

definition replaceLast :: "message \<Rightarrow> message list \<Rightarrow> message list" where
  "replaceLast m prev =
     (if 0 < length prev \<and> role (prev ! (length prev - 1)) = Ai
      then prev[length prev - 1 := m] else prev)"

section \<open>The streaming branch of handleChatSubmit\<close>

text \<open>The body of the loop over the complete parts (lines 301-325).\<close>

definition process_part :: "session \<Rightarrow> jsstring \<Rightarrow> session" where
  "process_part s part =
     (let line = trim part in
      if line = [] then s
      else if startsWith line (js ''data: '') then
        (let content = unescape (drop 6 line);
             s' = s\<lparr>aiResponse := aiResponse s @ content\<rparr>
         in setChatHistory ShowStreaming s')
      else if startsWith line (js ''status: '') then
        s\<lparr>statusMsg := drop 8 line, console := console s @ [LogStatus (drop 8 line)]\<rparr>
      else if startsWith line (js ''final: '') then
        (let finalContent = trim (drop 7 line) in
         if finalContent \<noteq> [] \<and> finalContent \<noteq> js ''No response'' \<and> aiResponse s = []
         then s\<lparr>aiResponse := finalContent\<rparr> else s)
      else s)"

text \<open>
  One iteration of the read loop (lines 291-326) on a decoded chunk: the chunk is appended
  to the buffer, the buffer is split, the last part is kept and the others are processed
  in order.
\<close>

definition process_chunk :: "session \<Rightarrow> jsstring \<Rightarrow> session" where
  "process_chunk s chunk =
     (let buf = buffer s @ chunk;
          parts = split buf
      in foldl process_part (s\<lparr>buffer := last parts\<rparr>) (butlast parts))"

text \<open>The remaining buffer after the loop (lines 330-341).\<close>

definition flush_buffer :: "session \<Rightarrow> session" where
  "flush_buffer s =
     (if trim (buffer s) \<noteq> [] then
        (let line = trim (buffer s) in
         if startsWith line (js ''data: '') then
           s\<lparr>aiResponse := aiResponse s @ unescape (drop 6 line)\<rparr>
         else if startsWith line (js ''final: '') then
           (let finalContent = trim (drop 7 line) in
            if finalContent \<noteq> [] \<and> aiResponse s = []
            then s\<lparr>aiResponse := finalContent\<rparr> else s)
         else s)
      else s)"

text \<open>The last update (lines 344-351).\<close>

definition mark_complete :: "session \<Rightarrow> session" where
  "mark_complete s = setChatHistory ShowComplete s"

text \<open>The handler of the \<^verbatim>\<open>catch\<close> block (lines 359-365).\<close>

definition error_message :: "jsstring \<Rightarrow> message" where
  "error_message api_base_url =
     \<lparr>role = Ai,
      content = js ''Error connecting to backend. Make sure the server is running at ''
                @ api_base_url,
      isStreaming = False\<rparr>"

definition catch_error :: "jsstring \<Rightarrow> session \<Rightarrow> session" where
  "catch_error api_base_url s =
     setChatHistory (AppendMessage (error_message api_base_url))
       (s\<lparr>console := console s @ [LogChatError]\<rparr>)"

text \<open>
  The reader delivers the chunks in order and then either reports the end of the stream
  or rejects, which takes control to the \<^verbatim>\<open>catch\<close> block. A chunk is here the text
  that \<^verbatim>\<open>decoder.decode(value, { stream: true })\<close> returns for one read; the decoding
  of bytes is outside the model.
\<close>

datatype transport_end = Done | ReadError

definition start_session :: session where
  "start_session =
     setChatHistory (AppendMessage \<lparr>role = Ai, content = [], isStreaming = True\<rparr>)
       \<lparr>aiResponse = [], buffer = [], statusMsg = [], calls = [], console = []\<rparr>"

definition read_loop :: "session \<Rightarrow> jsstring list \<Rightarrow> session" where
  "read_loop s chunks = foldl process_chunk s chunks"

section \<open>React\<close>

text \<open>
  What an updater returns for the history \<open>prev\<close> when it is called while \<^verbatim>\<open>aiResponse\<close>
  has the value \<open>ai\<close>.
\<close>

fun run_updater :: "jsstring \<Rightarrow> updater \<Rightarrow> message list \<Rightarrow> message list" where
  "run_updater ai (AppendMessage m) prev = prev @ [m]"
| "run_updater ai ShowStreaming prev =
     replaceLast \<lparr>role = Ai, content = ai, isStreaming = True\<rparr> prev"
| "run_updater ai ShowComplete prev =
     replaceLast
       \<lparr>role = Ai,
        content = (if ai = [] then js ''No response generated.'' else ai),
        isStreaming = False\<rparr> prev"

text \<open>
  The state \<^verbatim>\<open>chatHistory\<close> as React holds it: the history, the histories that the
  updaters called so far have returned, in order (\<open>published\<close>), and the number of the
  handler's updaters that have been called (\<open>applied\<close>).
\<close>

record react =
  chatHistory :: "message list"
  published :: "message list list"
  applied :: nat

definition run_one :: "jsstring \<Rightarrow> react \<Rightarrow> updater \<Rightarrow> react" where
  "run_one ai r u =
     (let h = run_updater ai u (chatHistory r)
      in r\<lparr>chatHistory := h, published := published r @ [h], applied := applied r + 1\<rparr>)"

text \<open>
  A render: React calls the updaters that are waiting, in the order of the
  \<^verbatim>\<open>setChatHistory\<close> calls, each on the history the one before it returned. The handler
  is suspended meanwhile, so all of them read the same value of \<^verbatim>\<open>aiResponse\<close>.
\<close>

definition render :: "session \<Rightarrow> react \<Rightarrow> react" where
  "render s r = foldl (run_one (aiResponse s)) r (drop (applied r) (calls s))"

text \<open>
  JavaScript runs the handler without interruption between two \<^verbatim>\<open>await\<close>s, so React can
  render only while the handler waits for \<^verbatim>\<open>reader.read()\<close> (line 287). Whether it does
  before the read is answered is up to the scheduler and the network: a read is given as
  the chunk it delivers together with a flag that tells whether React rendered while the
  handler was waiting for it.
\<close>

type_synonym read = "bool \<times> jsstring"

fun run_reads :: "session \<Rightarrow> react \<Rightarrow> read list \<Rightarrow> session \<times> react" where
  "run_reads s r [] = (s, r)"
| "run_reads s r ((rendered, chunk) # reads) =
     run_reads (process_chunk s chunk) (if rendered then render s r else r) reads"

text \<open>
  The branch \<^verbatim>\<open>response.ok\<close> of \<^verbatim>\<open>handleChatSubmit\<close> (lines 277-351) with its
  \<^verbatim>\<open>catch\<close> block, as React sees it. \<open>h\<close> is the chat history on which the first
  updater of the branch is called, \<open>rendered\<close> tells whether React rendered while the
  handler waited for the read that ended the stream, and \<open>api_base_url\<close> is the constant
  \<^verbatim>\<open>API_BASE_URL\<close>, which comes from the build environment. When the handler has returned,
  React renders what is still waiting.
\<close>

definition stream_response ::
  "jsstring \<Rightarrow> message list \<Rightarrow> read list \<Rightarrow> bool \<Rightarrow> transport_end \<Rightarrow> react" where
  "stream_response api_base_url h reads rendered ending =
     (let (s, r) = run_reads start_session \<lparr>chatHistory = h, published = [], applied = 0\<rparr> reads;
          r' = (if rendered then render s r else r);
          s' = (case ending of
                  Done \<Rightarrow> mark_complete (flush_buffer s)
                | ReadError \<Rightarrow> catch_error api_base_url s)
      in render s' r')"

text \<open>The text of the message at the end of the history, and of each published history.\<close>

definition resolved_text :: "react \<Rightarrow> jsstring" where
  "resolved_text r = content (last (chatHistory r))"

definition published_texts :: "react \<Rightarrow> jsstring list" where
  "published_texts r = map (\<lambda>h. content (last h)) (published r)"

section \<open>The splitter and the classifier as functions\<close>

text \<open>
  The buffer handling of one loop iteration (lines 291-297) taken alone: the complete parts
  and the new buffer. \<open>feed_all\<close> runs it over the chunks in order and collects the parts.
\<close>

definition feed :: "jsstring \<Rightarrow> jsstring \<Rightarrow> jsstring list \<times> jsstring" where
  "feed buf chunk = (let parts = split (buf @ chunk) in (butlast parts, last parts))"

fun feed_all :: "jsstring \<Rightarrow> jsstring list \<Rightarrow> jsstring list \<times> jsstring" where
  "feed_all buf [] = ([], buf)"
| "feed_all buf (c # cs) =
     (let (recs, buf') = feed buf c;
          (recs', buf'') = feed_all buf' cs
      in (recs @ recs', buf''))"

text \<open>
  The kind and payload the if-chain of lines 304-325 gives a trimmed line: the prefixes
  are tested in the order of the source, the payload is what the branch takes from the line.
\<close>

datatype event = Content jsstring | Status jsstring | Final jsstring | Unknown jsstring

definition classify :: "jsstring \<Rightarrow> event" where
  "classify line =
     (if startsWith line (js ''data: '') then Content (drop 6 line)
      else if startsWith line (js ''status: '') then Status (drop 8 line)
      else if startsWith line (js ''final: '') then Final (trim (drop 7 line))
      else Unknown line)"

text \<open>
  The records of a whole stream: every segment of the concatenated chunks, trimmed and
  classified; the last one is the remainder that is left in the buffer at the end.
\<close>

definition events :: "jsstring list \<Rightarrow> event list" where
  "events chunks = map (\<lambda>p. classify (trim p)) (split (concat chunks))"

fun is_content :: "event \<Rightarrow> bool" where
  "is_content (Content p) = True"
| "is_content e = False"

fun is_final :: "event \<Rightarrow> bool" where
  "is_final (Final f) = True"
| "is_final e = False"

text \<open>The test of line 322 on a Final payload, apart from the state of \<^verbatim>\<open>aiResponse\<close>.\<close>

fun usable_final :: "event \<Rightarrow> bool" where
  "usable_final (Final f) = (f \<noteq> [] \<and> f \<noteq> js ''No response'')"
| "usable_final e = False"

fun content_texts :: "event list \<Rightarrow> jsstring list" where
  "content_texts [] = []"
| "content_texts (Content p # es) = unescape p # content_texts es"
| "content_texts (e # es) = content_texts es"

text \<open>A part that the loop body takes as a status record.\<close>

definition is_status_part :: "jsstring \<Rightarrow> bool" where
  "is_status_part part = startsWith (trim part) (js ''status: '')"

text \<open>
  Two states of the handler that differ at most in \<^verbatim>\<open>statusMsg\<close> and in the console
  output.
\<close>

definition same_messages :: "session \<Rightarrow> session \<Rightarrow> bool" where
  "same_messages a b \<longleftrightarrow>
     aiResponse a = aiResponse b \<and> buffer a = buffer b \<and> calls a = calls b"

text \<open>
  The history shows the streaming assistant message after \<open>h\<close>, with a text that is a
  prefix of \<open>ai\<close>; it is the last history published; each published text is a prefix of the
  next.
\<close>

definition bubble_inv :: "message list \<Rightarrow> jsstring \<Rightarrow> react \<Rightarrow> bool" where
  "bubble_inv h ai r \<longleftrightarrow>
     chatHistory r =
       h @ [\<lparr>role = Ai, content = content (last (chatHistory r)), isStreaming = True\<rparr>] \<and>
     prefix (content (last (chatHistory r))) ai \<and>
     published r \<noteq> [] \<and> last (published r) = chatHistory r \<and>
     successively prefix (published_texts r)"

text \<open>
  The text that the streaming message shows once every updater of the loop has been
  called: the value of \<^verbatim>\<open>aiResponse\<close> if the loop has published at all, the empty text of
  the placeholder otherwise.
\<close>

definition shown_text :: "session \<Rightarrow> jsstring" where
  "shown_text s = (if 1 < length (calls s) then aiResponse s else [])"

text \<open>
  What holds of the handler and of React while the loop runs, for a request whose first
  updater finds the history \<open>h\<close>.
\<close>

definition react_inv :: "message list \<Rightarrow> session \<Rightarrow> react \<Rightarrow> bool" where
  "react_inv h s r \<longleftrightarrow>
     calls s =
       AppendMessage \<lparr>role = Ai, content = [], isStreaming = True\<rparr>
         # replicate (length (calls s) - 1) ShowStreaming \<and>
     (1 < length (calls s) \<longrightarrow> aiResponse s \<noteq> []) \<and>
     applied r \<le> length (calls s) \<and>
     (if applied r = 0 then chatHistory r = h \<and> published r = []
      else bubble_inv h (aiResponse s) r \<and>
           (applied r = length (calls s) \<longrightarrow> content (last (chatHistory r)) = shown_text s))"

section \<open>Splitting\<close>

lemma split_not_Nil [simp]: "split s \<noteq> []"
  by (induction s rule: split.induct) (auto simp: Let_def)

lemma split_singleton: "split s = [p] \<Longrightarrow> p = s"
proof (induction s arbitrary: p rule: split.induct)
  case (3 a b s)
  show ?case
  proof (cases "a = LF \<and> b = LF")
    case True
    with "3.prems" show ?thesis by simp
  next
    case False
    let ?r = "split (b # s)"
    from False "3.prems" have eq: "(a # hd ?r) # tl ?r = [p]"
      by (auto simp: Let_def split: if_splits)
    then have "tl ?r = []" and p: "p = a # hd ?r" by auto
    then have "?r = [hd ?r]" by (metis list.collapse split_not_Nil)
    with "3.IH"(2)[OF False, of "hd ?r"] have "hd ?r = b # s" by simp
    with p show ?thesis by simp
  qed
qed auto

lemma split_append:
  "split (a @ b) = butlast (split a) @ split (last (split a) @ b)"
proof (induction a rule: split.induct)
  case 1
  show ?case by simp
next
  case (2 x)
  show ?case by simp
next
  case (3 x y s)
  show ?case
  proof (cases "x = LF \<and> y = LF")
    case True
    with "3.IH"(1) show ?thesis by simp
  next
    case False
    let ?old = "split (y # s)"
    let ?r = "split (y # s @ b)"
    have IH: "?r = butlast ?old @ split (last ?old @ b)"
      using "3.IH"(2)[OF False] by (simp only: append_Cons)
    have L: "split (x # y # s @ b) = (x # hd ?r) # tl ?r"
      using False by (auto simp: Let_def)
    have R0: "split (x # y # s) = (x # hd ?old) # tl ?old"
      using False by (auto simp: Let_def)
    show ?thesis
    proof (cases "tl ?old = []")
      case True
      then have one: "?old = [hd ?old]" by (metis list.collapse split_not_Nil)
      then have h: "hd ?old = y # s" by (rule split_singleton)
      show ?thesis using True h L R0 by simp
    next
      case False
      then obtain p q qs where r0: "?old = p # q # qs"
        by (metis list.collapse split_not_Nil)
      show ?thesis using IH L R0 unfolding r0 by simp
    qed
  qed
qed

lemma split_last_idem: "split (last (split s)) = [last (split s)]"
proof (induction s rule: split.induct)
  case (3 x y s)
  show ?case
  proof (cases "x = LF \<and> y = LF")
    case True
    with "3.IH"(1) show ?thesis by simp
  next
    case False
    let ?old = "split (y # s)"
    have R0: "split (x # y # s) = (x # hd ?old) # tl ?old"
      using False by (auto simp: Let_def)
    show ?thesis
    proof (cases "tl ?old = []")
      case True
      then have "?old = [hd ?old]" by (metis list.collapse split_not_Nil)
      then have "hd ?old = y # s" by (rule split_singleton)
      with True R0 show ?thesis by simp
    next
      case F: False
      then have "last (split (x # y # s)) = last ?old"
        using R0 by (simp add: last_tl)
      with "3.IH"(2)[OF False] show ?thesis by simp
    qed
  qed
qed auto

lemma process_part_buffer:
  "process_part (s\<lparr>buffer := b\<rparr>) part = (process_part s part)\<lparr>buffer := b\<rparr>"
  by (simp add: process_part_def setChatHistory_def Let_def)

lemma foldl_process_part_buffer:
  "foldl process_part (s\<lparr>buffer := b\<rparr>) parts = (foldl process_part s parts)\<lparr>buffer := b\<rparr>"
  by (induction parts arbitrary: s) (simp_all add: process_part_buffer)

lemma buffer_process_part [simp]: "buffer (process_part s part) = buffer s"
  by (simp add: process_part_def setChatHistory_def Let_def)

lemma buffer_foldl_process_part [simp]: "buffer (foldl process_part s parts) = buffer s"
  by (induction parts arbitrary: s) simp_all

lemma feed_all_split:
  "split buf = [buf] \<Longrightarrow>
   feed_all buf chunks =
     (butlast (split (buf @ concat chunks)), last (split (buf @ concat chunks)))"
proof (induction chunks arbitrary: buf)
  case Nil
  then show ?case by simp
next
  case (Cons c cs)
  let ?b = "last (split (buf @ c))"
  have "split ?b = [?b]" by (rule split_last_idem)
  from Cons.IH[OF this]
  have IH: "feed_all ?b cs = (butlast (split (?b @ concat cs)), last (split (?b @ concat cs)))" .
  have S: "split (buf @ concat (c # cs)) = butlast (split (buf @ c)) @ split (?b @ concat cs)"
    using split_append[of "buf @ c" "concat cs"] by simp
  show ?case
    unfolding S by (simp add: feed_def IH butlast_append Let_def)
qed

lemma read_loop_split:
  "split (buffer s) = [buffer s] \<Longrightarrow>
   read_loop s chunks =
     foldl process_part (s\<lparr>buffer := last (split (buffer s @ concat chunks))\<rparr>)
       (butlast (split (buffer s @ concat chunks)))"
proof (induction chunks arbitrary: s)
  case Nil
  then show ?case by (simp add: read_loop_def)
next
  case (Cons c cs)
  let ?b = "last (split (buffer s @ c))"
  let ?s1 = "process_chunk s c"
  have b1: "buffer ?s1 = ?b"
    by (simp add: process_chunk_def Let_def)
  have "split (buffer ?s1) = [buffer ?s1]"
    unfolding b1 by (rule split_last_idem)
  from Cons.IH[OF this]
  have IH: "read_loop ?s1 cs =
      foldl process_part (?s1\<lparr>buffer := last (split (?b @ concat cs))\<rparr>)
        (butlast (split (?b @ concat cs)))"
    unfolding b1 .
  have S: "split (buffer s @ concat (c # cs)) =
      butlast (split (buffer s @ c)) @ split (?b @ concat cs)"
    using split_append[of "buffer s @ c" "concat cs"] by simp
  have "read_loop s (c # cs) = read_loop ?s1 cs"
    by (simp add: read_loop_def)
  also note IH
  finally show ?case
    unfolding S
    by (simp add: butlast_append process_chunk_def Let_def foldl_process_part_buffer)
qed

lemma buffer_start_session [simp]: "buffer start_session = []"
  by (simp add: start_session_def setChatHistory_def Let_def)

text \<open>
  Claim C3 (split associativity). Whatever the partition of a text into chunks, feeding the
  chunks one at a time (append to the buffer, split, keep the last segment as the new
  buffer) gives the complete parts, in order, and the final remainder that one split of the
  whole text gives; and the read loop, which processes the parts as they are completed,
  ends in the state that processing the parts of the whole text reaches.
\<close>

theorem split_associativity:
  "feed_all [] chunks = (butlast (split (concat chunks)), last (split (concat chunks))) \<and>
   read_loop start_session chunks =
     foldl process_part (start_session\<lparr>buffer := last (split (concat chunks))\<rparr>)
       (butlast (split (concat chunks)))"
  using feed_all_split[of "[]" chunks] read_loop_split[of start_session chunks]
  by simp

section \<open>Trimming, prefixes and unescaping\<close>

lemma trim_Nil [simp]: "trim [] = []"
  by (simp add: trim_def)

lemma trim_last: "trim s \<noteq> [] \<Longrightarrow> \<not> is_ws (last (trim s))"
  unfolding trim_def by (simp add: last_rev hd_dropWhile)




lemma js_data: "js ''data: '' = [100, 97, 116, 97, 58, 32]"
  and js_status: "js ''status: '' = [115, 116, 97, 116, 117, 115, 58, 32]"
  and js_final: "js ''final: '' = [102, 105, 110, 97, 108, 58, 32]"
  and js_data_colon: "js ''data:'' = [100, 97, 116, 97, 58]"
  by (simp_all add: js_def)

lemma is_ws_space: "is_ws 32" and not_ws_d: "\<not> is_ws 100" and not_ws_colon: "\<not> is_ws 58"
  by (simp_all add: is_ws_def)

lemma data_payload_nonempty:
  assumes "startsWith (trim part) (js ''data: '')"
  shows "drop 6 (trim part) \<noteq> []"
proof
  assume "drop 6 (trim part) = []"
  with assms have "trim part = js ''data: ''"
    by (auto simp: startsWith_def prefix_def js_data)
  moreover from this have "\<not> is_ws (last (trim part))"
    by (intro trim_last) (simp add: js_data)
  ultimately show False by (simp add: js_data is_ws_space)
qed

lemma unescape_Nil_iff [simp]: "unescape s = [] \<longleftrightarrow> s = []"
  by (induction s rule: unescape.induct) auto

lemma unescape_append_escape:
  "unescape (xs @ BACKSLASH # LETTER_n # ys) = unescape xs @ LF # unescape ys"
  by (induction xs rule: unescape.induct) (auto simp: BACKSLASH_def LETTER_n_def)

lemma unescape_append_other:
  "c \<noteq> LETTER_n \<Longrightarrow> unescape (xs @ c # ys) = unescape xs @ unescape (c # ys)"
  by (induction xs rule: unescape.induct) auto


lemma startsWith_hd: "startsWith l (c # p) \<Longrightarrow> l \<noteq> [] \<and> hd l = c"
  by (cases l) (auto simp: startsWith_def)

lemma startsWith_exclusive:
  "startsWith l (js ''status: '') \<Longrightarrow> \<not> startsWith l (js ''data: '')"
  "startsWith l (js ''final: '') \<Longrightarrow> \<not> startsWith l (js ''data: '')"
  "startsWith l (js ''final: '') \<Longrightarrow> \<not> startsWith l (js ''status: '')"
  using startsWith_hd[of l 115] startsWith_hd[of l 100] startsWith_hd[of l 102]
  by (auto simp: js_data js_status js_final)

lemma startsWith_nonempty:
  "startsWith l (js ''data: '') \<Longrightarrow> l \<noteq> []"
  "startsWith l (js ''status: '') \<Longrightarrow> l \<noteq> []"
  "startsWith l (js ''final: '') \<Longrightarrow> l \<noteq> []"
  using startsWith_hd[of l] by (auto simp: js_data js_status js_final)

section \<open>The branches of the loop body and of the flush\<close>

lemma process_part_data:
  "startsWith (trim part) (js ''data: '') \<Longrightarrow>
   process_part s part =
     setChatHistory ShowStreaming
       (s\<lparr>aiResponse := aiResponse s @ unescape (drop 6 (trim part))\<rparr>)"
  by (simp add: process_part_def Let_def startsWith_nonempty)

lemma process_part_status:
  "is_status_part part \<Longrightarrow>
   process_part s part =
     s\<lparr>statusMsg := drop 8 (trim part),
       console := console s @ [LogStatus (drop 8 (trim part))]\<rparr>"
  by (simp add: process_part_def Let_def is_status_part_def startsWith_nonempty
      startsWith_exclusive)

lemma process_part_final:
  "startsWith (trim part) (js ''final: '') \<Longrightarrow>
   process_part s part =
     (if trim (drop 7 (trim part)) \<noteq> [] \<and> trim (drop 7 (trim part)) \<noteq> js ''No response''
         \<and> aiResponse s = []
      then s\<lparr>aiResponse := trim (drop 7 (trim part))\<rparr> else s)"
  by (simp add: process_part_def Let_def startsWith_nonempty startsWith_exclusive)

lemma process_part_unknown:
  "\<not> startsWith (trim part) (js ''data: '') \<Longrightarrow>
   \<not> startsWith (trim part) (js ''status: '') \<Longrightarrow>
   \<not> startsWith (trim part) (js ''final: '') \<Longrightarrow> process_part s part = s"
  by (simp add: process_part_def Let_def)

lemma flush_buffer_data:
  "startsWith (trim (buffer s)) (js ''data: '') \<Longrightarrow>
   flush_buffer s = s\<lparr>aiResponse := aiResponse s @ unescape (drop 6 (trim (buffer s)))\<rparr>"
  by (simp add: flush_buffer_def Let_def startsWith_nonempty)

lemma flush_buffer_final:
  "startsWith (trim (buffer s)) (js ''final: '') \<Longrightarrow>
   flush_buffer s =
     (if trim (drop 7 (trim (buffer s))) \<noteq> [] \<and> aiResponse s = []
      then s\<lparr>aiResponse := trim (drop 7 (trim (buffer s)))\<rparr> else s)"
  by (simp add: flush_buffer_def Let_def startsWith_nonempty startsWith_exclusive)

lemma flush_buffer_other:
  "\<not> startsWith (trim (buffer s)) (js ''data: '') \<Longrightarrow>
   \<not> startsWith (trim (buffer s)) (js ''final: '') \<Longrightarrow> flush_buffer s = s"
  by (simp add: flush_buffer_def Let_def)

section \<open>Records without a recognised prefix\<close>

text \<open>
  Claim C8 (unknown-prefix tolerance). A complete part whose trimmed form starts with none
  of the prefixes \<^verbatim>\<open>data: \<close>, \<^verbatim>\<open>status: \<close>, \<^verbatim>\<open>final: \<close> leaves the
  whole state as it is (nothing is accumulated, nothing is published), the parts after it
  are processed as if it had not been there, and the same holds when it is the remainder
  that is flushed at the end.
\<close>
theorem unknown_prefix_ignored:
  assumes "\<not> startsWith (trim part) (js ''data: '')"
    and "\<not> startsWith (trim part) (js ''status: '')"
    and "\<not> startsWith (trim part) (js ''final: '')"
  shows "process_part s part = s \<and>
         foldl process_part s (ps @ part # qs) = foldl process_part s (ps @ qs) \<and>
         flush_buffer (s\<lparr>buffer := part\<rparr>) = s\<lparr>buffer := part\<rparr>"
  using assms by (simp add: process_part_unknown flush_buffer_other)

theorem unknown_prefix_ignored_witness:
  "\<not> startsWith (trim (js ''ping: keepalive'')) (js ''data: '') \<and>
   \<not> startsWith (trim (js ''ping: keepalive'')) (js ''status: '') \<and>
   \<not> startsWith (trim (js ''ping: keepalive'')) (js ''final: '') \<and>
   process_part start_session (js ''ping: keepalive'') = start_session \<and>
   aiResponse (foldl process_part start_session
      ([js ''data: a''] @ js ''ping: keepalive'' # [js ''data: b''])) = js ''ab''"
proof -
  have h1: "\<not> startsWith (trim (js ''ping: keepalive'')) (js ''data: '')"
    and h2: "\<not> startsWith (trim (js ''ping: keepalive'')) (js ''status: '')"
    and h3: "\<not> startsWith (trim (js ''ping: keepalive'')) (js ''final: '')"
    by code_simp+
  have e: "aiResponse (foldl process_part start_session ([js ''data: a''] @ [js ''data: b''])) = js ''ab''"
    by code_simp
  from unknown_prefix_ignored[OF h1 h2 h3, of start_session "[js ''data: a'']" "[js ''data: b'']"] h1 h2 h3 e
  show ?thesis by (simp only: append_Cons append_Nil simp_thms)
qed

section \<open>Unescaping of Content payloads\<close>

lemma unescape_fixed:
  "(BACKSLASH, LETTER_n) \<notin> set (zip t (tl t)) \<Longrightarrow> unescape t = t"
  by (induction t rule: unescape.induct) auto

text \<open>
  Claim C7 (unescaping). The payload of a Content record, in the loop and in the flush
  alike, is appended to the message text after \<open>unescape\<close>; \<open>unescape\<close> turns each
  occurrence of backslash followed by the letter n into one line feed, leaves a backslash
  followed by any other character as it is, and changes nothing in a payload without the
  two-character sequence.
\<close>

theorem content_unescaped:
  "(startsWith (trim part) (js ''data: '') \<longrightarrow>
      aiResponse (process_part s part) = aiResponse s @ unescape (drop 6 (trim part)) \<and>
      aiResponse (flush_buffer (s\<lparr>buffer := part\<rparr>)) =
        aiResponse s @ unescape (drop 6 (trim part))) \<and>
   unescape (xs @ BACKSLASH # LETTER_n # ys) = unescape xs @ LF # unescape ys \<and>
   (c \<noteq> LETTER_n \<longrightarrow>
      unescape (xs @ BACKSLASH # c # ys) = unescape xs @ BACKSLASH # unescape (c # ys)) \<and>
   ((BACKSLASH, LETTER_n) \<notin> set (zip t (tl t)) \<longrightarrow> unescape t = t)"
proof -
  have "unescape (xs @ BACKSLASH # c # ys) = unescape xs @ BACKSLASH # unescape (c # ys)"
    if "c \<noteq> LETTER_n"
    using that unescape_append_other[of BACKSLASH xs "c # ys"]
    by (simp add: BACKSLASH_def LETTER_n_def)
  then show ?thesis
    by (simp add: process_part_data flush_buffer_data setChatHistory_def Let_def
        unescape_append_escape unescape_fixed)
qed

theorem content_unescaped_witness:
  "startsWith (trim (js ''data: line1'' @ [BACKSLASH, LETTER_n] @ js ''line2'')) (js ''data: '') \<and>
   aiResponse (process_part start_session
      (js ''data: line1'' @ [BACKSLASH, LETTER_n] @ js ''line2'')) =
     js ''line1'' @ [LF] @ js ''line2'' \<and>
   (0x74 :: jschar) \<noteq> LETTER_n \<and>
   unescape (js ''a'' @ BACKSLASH # 0x74 # js ''b'') = js ''a'' @ BACKSLASH # 0x74 # js ''b'' \<and>
   (BACKSLASH, LETTER_n) \<notin> set (zip (js ''plain'') (tl (js ''plain''))) \<and>
   unescape (js ''plain'') = js ''plain''"
proof -
  let ?part = "js ''data: line1'' @ [BACKSLASH, LETTER_n] @ js ''line2''"
  have h1: "startsWith (trim ?part) (js ''data: '')" by code_simp
  have h2: "(0x74 :: jschar) \<noteq> LETTER_n" by code_simp
  have h3: "(BACKSLASH, LETTER_n) \<notin> set (zip (js ''plain'') (tl (js ''plain'')))" by code_simp
  have e1: "aiResponse start_session @ unescape (drop 6 (trim ?part)) =
      js ''line1'' @ [LF] @ js ''line2''" by code_simp
  have e2: "unescape (js ''a'') @ BACKSLASH # unescape (0x74 # js ''b'') =
      js ''a'' @ BACKSLASH # 0x74 # js ''b''" by code_simp
  from content_unescaped[of ?part start_session "js ''a''" "js ''b''" "0x74" "js ''plain''"]
    h1 h2 h3 e1 e2
  show ?thesis by (simp only: simp_thms)
qed

section \<open>Whitespace around a Content record\<close>






section \<open>Status records\<close>

lemma same_messages_refl [simp]: "same_messages a a"
  by (simp add: same_messages_def)









section \<open>The message text in terms of the records\<close>

lemma aiResponse_process_part:
  "aiResponse (process_part s part) =
     (case classify (trim part) of
        Content p \<Rightarrow> aiResponse s @ unescape p
      | Final f \<Rightarrow> if usable_final (Final f) \<and> aiResponse s = [] then f else aiResponse s
      | _ \<Rightarrow> aiResponse s)"
proof -
  consider (data) "startsWith (trim part) (js ''data: '')"
    | (status) "is_status_part part"
    | (final) "startsWith (trim part) (js ''final: '')"
    | (unknown) "\<not> startsWith (trim part) (js ''data: '')"
        "\<not> startsWith (trim part) (js ''status: '')"
        "\<not> startsWith (trim part) (js ''final: '')"
    by (auto simp: is_status_part_def)
  then show ?thesis
  proof cases
    case data
    then show ?thesis
      by (simp add: process_part_data classify_def setChatHistory_def Let_def)
  next
    case status
    then show ?thesis
      by (simp add: process_part_status classify_def is_status_part_def startsWith_exclusive)
  next
    case final
    then show ?thesis
      by (simp add: process_part_final classify_def startsWith_exclusive)
  next
    case unknown
    then show ?thesis
      by (simp add: process_part_unknown classify_def)
  qed
qed

lemma aiResponse_flush_buffer:
  "aiResponse (flush_buffer s) =
     (case classify (trim (buffer s)) of
        Content p \<Rightarrow> aiResponse s @ unescape p
      | Final f \<Rightarrow> if f \<noteq> [] \<and> aiResponse s = [] then f else aiResponse s
      | _ \<Rightarrow> aiResponse s)"
proof -
  consider (data) "startsWith (trim (buffer s)) (js ''data: '')"
    | (final) "\<not> startsWith (trim (buffer s)) (js ''data: '')"
        "startsWith (trim (buffer s)) (js ''final: '')"
    | (other) "\<not> startsWith (trim (buffer s)) (js ''data: '')"
        "\<not> startsWith (trim (buffer s)) (js ''final: '')"
    by auto
  then show ?thesis
  proof cases
    case data
    then show ?thesis by (simp add: flush_buffer_data classify_def)
  next
    case final
    then show ?thesis
      by (simp add: flush_buffer_final classify_def startsWith_exclusive)
  next
    case other
    then show ?thesis by (simp add: flush_buffer_other classify_def)
  qed
qed

lemma classify_Content_nonempty:
  "classify (trim part) = Content p \<Longrightarrow> p \<noteq> []"
  using data_payload_nonempty[of part]
  by (auto simp: classify_def split: if_splits)

lemma content_texts_append:
  "content_texts (es @ fs) = content_texts es @ content_texts fs"
  by (induction es rule: content_texts.induct) simp_all

lemma content_texts_none:
  "list_all (\<lambda>e. \<not> is_content e) es \<Longrightarrow> content_texts es = []"
  by (induction es rule: content_texts.induct) simp_all

lemma aiResponse_foldl_nonempty:
  "aiResponse s \<noteq> [] \<Longrightarrow>
   aiResponse (foldl process_part s parts) =
     aiResponse s @ concat (content_texts (map (\<lambda>p. classify (trim p)) parts))"
proof (induction parts arbitrary: s)
  case Nil
  show ?case by simp
next
  case (Cons a parts)
  show ?case
  proof (cases "classify (trim a)")
    case (Content p)
    then have ai: "aiResponse (process_part s a) = aiResponse s @ unescape p"
      by (simp add: aiResponse_process_part)
    with Cons.prems have "aiResponse (process_part s a) \<noteq> []" by simp
    from Cons.IH[OF this] show ?thesis by (simp add: ai Content)
  next
    case (Status x)
    then have ai: "aiResponse (process_part s a) = aiResponse s"
      by (simp add: aiResponse_process_part)
    with Cons.prems have "aiResponse (process_part s a) \<noteq> []" by simp
    from Cons.IH[OF this] show ?thesis by (simp add: ai Status)
  next
    case (Final f)
    with Cons.prems have ai: "aiResponse (process_part s a) = aiResponse s"
      by (simp add: aiResponse_process_part)
    with Cons.prems have "aiResponse (process_part s a) \<noteq> []" by simp
    from Cons.IH[OF this] show ?thesis by (simp add: ai Final)
  next
    case (Unknown x)
    then have ai: "aiResponse (process_part s a) = aiResponse s"
      by (simp add: aiResponse_process_part)
    with Cons.prems have "aiResponse (process_part s a) \<noteq> []" by simp
    from Cons.IH[OF this] show ?thesis by (simp add: ai Unknown)
  qed
qed

lemma aiResponse_foldl_empty:
  "aiResponse s = [] \<Longrightarrow>
   list_all (\<lambda>e. \<not> usable_final e)
     (takeWhile (\<lambda>e. \<not> is_content e) (map (\<lambda>p. classify (trim p)) parts)) \<Longrightarrow>
   aiResponse (foldl process_part s parts) =
     concat (content_texts (map (\<lambda>p. classify (trim p)) parts))"
proof (induction parts arbitrary: s)
  case Nil
  then show ?case by simp
next
  case (Cons a parts)
  show ?case
  proof (cases "classify (trim a)")
    case (Content p)
    then have ai: "aiResponse (process_part s a) = unescape p"
      using Cons.prems(1) by (simp add: aiResponse_process_part)
    have "p \<noteq> []" using Content by (rule classify_Content_nonempty)
    then have "aiResponse (process_part s a) \<noteq> []" by (simp add: ai)
    from aiResponse_foldl_nonempty[OF this, of parts] show ?thesis
      by (simp add: ai Content)
  next
    case (Status x)
    then have ai: "aiResponse (process_part s a) = []"
      using Cons.prems(1) by (simp add: aiResponse_process_part)
    from Cons.IH[OF ai] Cons.prems(2) show ?thesis by (simp add: Status)
  next
    case (Final f)
    with Cons.prems(2) have "\<not> usable_final (Final f)" by simp
    then have ai: "aiResponse (process_part s a) = []"
      using Cons.prems(1) Final by (simp add: aiResponse_process_part)
    from Cons.IH[OF ai] Cons.prems(2) show ?thesis by (simp add: Final)
  next
    case (Unknown x)
    then have ai: "aiResponse (process_part s a) = []"
      using Cons.prems(1) by (simp add: aiResponse_process_part)
    from Cons.IH[OF ai] Cons.prems(2) show ?thesis by (simp add: Unknown)
  qed
qed

lemma content_texts_nonempty:
  "list_ex is_content (map (\<lambda>p. classify (trim p)) parts) \<Longrightarrow>
   concat (content_texts (map (\<lambda>p. classify (trim p)) parts)) \<noteq> []"
proof (induction parts)
  case Nil
  then show ?case by simp
next
  case (Cons a parts)
  show ?case
  proof (cases "classify (trim a)")
    case (Content p)
    then have "p \<noteq> []" by (rule classify_Content_nonempty)
    then show ?thesis by (simp add: Content)
  next
    case (Status x)
    with Cons show ?thesis by simp
  next
    case (Final f)
    with Cons show ?thesis by simp
  next
    case (Unknown x)
    with Cons show ?thesis by simp
  qed
qed

lemma aiResponse_start_session [simp]: "aiResponse start_session = []"
  by (simp add: start_session_def setChatHistory_def Let_def)

lemma events_butlast:
  "butlast (events chunks) =
     map (\<lambda>p. classify (trim p)) (butlast (split (concat chunks)))"
  by (simp add: events_def map_butlast)

lemma events_last:
  "last (events chunks) = classify (trim (last (split (concat chunks))))"
  by (simp add: events_def last_map)

lemma events_snoc: "events chunks = butlast (events chunks) @ [last (events chunks)]"
  by (simp add: events_def)

text \<open>The state in which the loop leaves the text and the buffer, by the records.\<close>

lemma read_loop_buffer:
  "buffer (read_loop start_session chunks) = last (split (concat chunks))"
  using read_loop_split[of start_session chunks] by simp

lemma read_loop_aiResponse:
  assumes "list_all (\<lambda>e. \<not> usable_final e)
     (takeWhile (\<lambda>e. \<not> is_content e) (butlast (events chunks)))"
  shows "aiResponse (read_loop start_session chunks) =
     concat (content_texts (butlast (events chunks)))"
proof -
  let ?s = "start_session\<lparr>buffer := last (split (concat chunks))\<rparr>"
  have "aiResponse ?s = []" by simp
  from aiResponse_foldl_empty[OF this, of "butlast (split (concat chunks))"] assms
  show ?thesis
    using read_loop_split[of start_session chunks]
    by (simp add: events_butlast)
qed

section \<open>React during streaming\<close>

lemma replaceLast_snoc:
  "role b = Ai \<Longrightarrow> replaceLast m (h @ [b]) = h @ [m]"
  by (simp add: replaceLast_def)

lemma run_reads_fst: "fst (run_reads s r reads) = read_loop s (map snd reads)"
  by (induction reads arbitrary: s r) (auto simp: read_loop_def)

lemma applied_foldl_run_one:
  "applied (foldl (run_one ai) r us) = applied r + length us"
  by (induction us arbitrary: r) (simp_all add: run_one_def Let_def)

lemma applied_render:
  "applied r \<le> length (calls s) \<Longrightarrow> applied (render s r) = length (calls s)"
  by (simp add: render_def applied_foldl_run_one)

lemma render_idem:
  "applied r \<le> length (calls s) \<Longrightarrow> render s (render s r) = render s r"
  using applied_render[of r s] by (simp add: render_def[of s "render s r"])

lemma bubble_inv_mono:
  "bubble_inv h ai r \<Longrightarrow> prefix ai ai' \<Longrightarrow> bubble_inv h ai' r"
  unfolding bubble_inv_def by (meson prefix_order.trans)

lemma bubble_inv_history:
  "bubble_inv h ai r \<Longrightarrow>
   chatHistory r =
     h @ [\<lparr>role = Ai, content = content (last (chatHistory r)), isStreaming = True\<rparr>]"
  by (simp add: bubble_inv_def)

lemma bubble_inv_last_text:
  "bubble_inv h ai r \<Longrightarrow> last (published_texts r) = content (last (chatHistory r))"
  by (simp add: bubble_inv_def published_texts_def last_map)

lemma bubble_inv_ShowStreaming:
  assumes inv: "bubble_inv h ai r"
  shows "bubble_inv h ai (run_one ai r ShowStreaming)"
    and "content (last (chatHistory (run_one ai r ShowStreaming))) = ai"
proof -
  let ?b = "\<lparr>role = Ai, content = content (last (chatHistory r)), isStreaming = True\<rparr>"
  let ?m = "\<lparr>role = Ai, content = ai, isStreaming = True\<rparr>"
  from inv have hist: "chatHistory r = h @ [?b]"
    and pre: "prefix (content (last (chatHistory r))) ai"
    and pub: "published r \<noteq> []"
    and succ: "successively prefix (published_texts r)"
    by (simp_all add: bubble_inv_def)
  have r: "replaceLast ?m (chatHistory r) = h @ [?m]"
    by (subst hist) (simp add: replaceLast_snoc)
  have l: "last (published_texts r) = content (last (chatHistory r))"
    using inv by (rule bubble_inv_last_text)
  show "bubble_inv h ai (run_one ai r ShowStreaming)"
    using pub succ pre l
    by (simp add: bubble_inv_def run_one_def Let_def r published_texts_def
        successively_append_iff)
  show "content (last (chatHistory (run_one ai r ShowStreaming))) = ai"
    by (simp add: run_one_def Let_def r)
qed

lemma bubble_inv_replicate:
  "bubble_inv h ai r \<Longrightarrow>
   bubble_inv h ai (foldl (run_one ai) r (replicate n ShowStreaming)) \<and>
   content (last (chatHistory (foldl (run_one ai) r (replicate n ShowStreaming)))) =
     (if n = 0 then content (last (chatHistory r)) else ai)"
proof (induction n arbitrary: r)
  case 0
  then show ?case by simp
next
  case (Suc n)
  from bubble_inv_ShowStreaming[OF Suc.prems]
  have inv: "bubble_inv h ai (run_one ai r ShowStreaming)"
    and shown: "content (last (chatHistory (run_one ai r ShowStreaming))) = ai"
    by simp_all
  from Suc.IH[OF inv] shown show ?case by simp
qed

lemma bubble_inv_placeholder:
  assumes "chatHistory r = h" and "published r = []"
  shows "bubble_inv h ai
           (run_one ai r (AppendMessage \<lparr>role = Ai, content = [], isStreaming = True\<rparr>))"
    and "content (last (chatHistory
           (run_one ai r (AppendMessage \<lparr>role = Ai, content = [], isStreaming = True\<rparr>)))) = []"
  using assms by (simp_all add: bubble_inv_def run_one_def Let_def published_texts_def)

lemma react_inv_calls:
  "react_inv h s r \<Longrightarrow>
   calls s = AppendMessage \<lparr>role = Ai, content = [], isStreaming = True\<rparr>
     # replicate (length (calls s) - 1) ShowStreaming"
  by (simp add: react_inv_def)

lemma react_inv_applied: "react_inv h s r \<Longrightarrow> applied r \<le> length (calls s)"
  by (simp add: react_inv_def)

text \<open>
  Calling the updaters that wait, at a time when \<^verbatim>\<open>aiResponse\<close> has grown to \<open>ai'\<close>.
\<close>

lemma run_pending:
  assumes inv: "react_inv h s r" and pre: "prefix (aiResponse s) ai'"
  shows "bubble_inv h ai' (foldl (run_one ai') r (drop (applied r) (calls s)))"
    and "content (last (chatHistory (foldl (run_one ai') r (drop (applied r) (calls s))))) =
           (if applied r = length (calls s) then content (last (chatHistory r))
            else if 1 < length (calls s) then ai' else [])"
proof -
  let ?ph = "AppendMessage \<lparr>role = Ai, content = [], isStreaming = True\<rparr>"
  let ?n = "length (calls s) - 1"
  let ?R = "foldl (run_one ai') r (drop (applied r) (calls s))"
  from inv have c: "calls s = ?ph # replicate ?n ShowStreaming" by (rule react_inv_calls)
  from inv have le: "applied r \<le> length (calls s)" by (rule react_inv_applied)
  from c have len: "length (calls s) = Suc ?n" by (metis length_Cons length_replicate)
  have "bubble_inv h ai' ?R \<and>
        content (last (chatHistory ?R)) =
           (if applied r = length (calls s) then content (last (chatHistory r))
            else if 1 < length (calls s) then ai' else [])"
  proof (cases "applied r = 0")
    case True
    with inv have h0: "chatHistory r = h" "published r = []"
      by (simp_all add: react_inv_def)
    have d: "drop (applied r) (calls s) = ?ph # replicate ?n ShowStreaming"
      using True c by simp
    let ?r1 = "run_one ai' r ?ph"
    have b1: "bubble_inv h ai' ?r1" and t1: "content (last (chatHistory ?r1)) = []"
      using bubble_inv_placeholder[OF h0] by simp_all
    have R: "?R = foldl (run_one ai') ?r1 (replicate ?n ShowStreaming)"
      by (simp add: d)
    from bubble_inv_replicate[OF b1, of ?n] t1 True len
    show ?thesis unfolding R by auto
  next
    case False
    then obtain k where k: "applied r = Suc k" by (cases "applied r") simp_all
    from False inv have b: "bubble_inv h (aiResponse s) r" by (simp add: react_inv_def)
    then have b': "bubble_inv h ai' r" using pre by (rule bubble_inv_mono)
    have "drop (applied r) (calls s) = drop k (replicate ?n ShowStreaming)"
      by (subst c) (simp add: k)
    then have d: "drop (applied r) (calls s) = replicate (?n - k) ShowStreaming" by simp
    from bubble_inv_replicate[OF b', of "?n - k"] le k len
    show ?thesis unfolding d by auto
  qed
  then show "bubble_inv h ai' ?R"
    and "content (last (chatHistory ?R)) =
           (if applied r = length (calls s) then content (last (chatHistory r))
            else if 1 < length (calls s) then ai' else [])"
    by simp_all
qed

lemma react_inv_render:
  assumes inv: "react_inv h s r"
  shows "react_inv h s (render s r)"
proof -
  from inv have le: "applied r \<le> length (calls s)" by (rule react_inv_applied)
  then have ap: "applied (render s r) = length (calls s)" by (rule applied_render)
  from react_inv_calls[OF inv] have ne: "length (calls s) \<noteq> 0" by (metis length_0_conv list.distinct(1))
  have b: "bubble_inv h (aiResponse s) (render s r)"
    unfolding render_def by (rule run_pending(1)[OF inv]) simp
  have t: "content (last (chatHistory (render s r))) = shown_text s"
  proof (cases "applied r = length (calls s)")
    case True
    with ne inv have "content (last (chatHistory r)) = shown_text s"
      by (simp add: react_inv_def)
    with True show ?thesis
      unfolding render_def by (simp add: run_pending(2)[OF inv])
  next
    case False
    then show ?thesis
      unfolding render_def by (simp add: run_pending(2)[OF inv] shown_text_def)
  qed
  from inv b t ap ne show ?thesis by (simp add: react_inv_def)
qed

lemma react_inv_rendered:
  assumes "react_inv h s r"
  shows "chatHistory (render s r) =
           h @ [\<lparr>role = Ai, content = shown_text s, isStreaming = True\<rparr>]"
proof -
  from assms have inv: "react_inv h s (render s r)" by (rule react_inv_render)
  have ap: "applied (render s r) = length (calls s)"
    using react_inv_applied[OF assms] by (rule applied_render)
  from react_inv_calls[OF assms] have ne: "length (calls s) \<noteq> 0"
    by (metis length_0_conv list.distinct(1))
  from inv ap ne have "bubble_inv h (aiResponse s) (render s r)"
    and "content (last (chatHistory (render s r))) = shown_text s"
    by (simp_all add: react_inv_def)
  then show ?thesis using bubble_inv_history by metis
qed

lemma react_inv_start:
  "react_inv h start_session \<lparr>chatHistory = h, published = [], applied = 0\<rparr>"
  by (simp add: react_inv_def start_session_def setChatHistory_def)

lemma react_inv_process_part:
  assumes inv: "react_inv h s r"
  shows "react_inv h (process_part s part) r"
proof -
  consider (data) "startsWith (trim part) (js ''data: '')"
    | (status) "is_status_part part"
    | (final) "startsWith (trim part) (js ''final: '')"
    | (unknown) "\<not> startsWith (trim part) (js ''data: '')"
        "\<not> startsWith (trim part) (js ''status: '')"
        "\<not> startsWith (trim part) (js ''final: '')"
    by (auto simp: is_status_part_def)
  then show ?thesis
  proof cases
    case data
    let ?c = "unescape (drop 6 (trim part))"
    let ?s = "setChatHistory ShowStreaming (s\<lparr>aiResponse := aiResponse s @ ?c\<rparr>)"
    have ne: "?c \<noteq> []" using data_payload_nonempty[OF data] by simp
    from react_inv_calls[OF inv]
    have c: "calls ?s =
        AppendMessage \<lparr>role = Ai, content = [], isStreaming = True\<rparr>
          # replicate (length (calls ?s) - 1) ShowStreaming"
      by (simp add: setChatHistory_def)
         (metis Suc_pred length_greater_0_conv list.distinct(1) replicate_Suc replicate_append_same
           append_Cons length_Cons length_replicate diff_Suc_1)
    have le: "applied r < length (calls ?s)"
      using react_inv_applied[OF inv] by (simp add: setChatHistory_def)
    have b: "bubble_inv h (aiResponse ?s) r" if "applied r \<noteq> 0"
    proof -
      from that inv have "bubble_inv h (aiResponse s) r" by (simp add: react_inv_def)
      then show ?thesis
        by (rule bubble_inv_mono) (simp add: setChatHistory_def)
    qed
    have h0: "chatHistory r = h \<and> published r = []" if "applied r = 0"
      using that inv by (simp add: react_inv_def)
    have "react_inv h ?s r"
      unfolding react_inv_def
      using c le b h0 ne by (auto simp: setChatHistory_def)
    then show ?thesis by (simp add: process_part_data[OF data])
  next
    case status
    with inv show ?thesis
      by (auto simp: process_part_status react_inv_def shown_text_def split: if_splits)
  next
    case final
    show ?thesis
    proof (cases "trim (drop 7 (trim part)) \<noteq> [] \<and>
        trim (drop 7 (trim part)) \<noteq> js ''No response'' \<and> aiResponse s = []")
      case True
      let ?f = "trim (drop 7 (trim part))"
      from True inv have one: "\<not> 1 < length (calls s)" by (auto simp: react_inv_def)
      have b: "bubble_inv h ?f r" if "applied r \<noteq> 0"
      proof -
        from that inv have "bubble_inv h (aiResponse s) r" by (simp add: react_inv_def)
        then show ?thesis by (rule bubble_inv_mono) (simp add: True)
      qed
      have "react_inv h (s\<lparr>aiResponse := ?f\<rparr>) r"
        using inv one b by (auto simp: react_inv_def shown_text_def)
      moreover from True have "process_part s part = s\<lparr>aiResponse := ?f\<rparr>"
        unfolding process_part_final[OF final] by auto
      ultimately show ?thesis by simp
    next
      case False
      then have "process_part s part = s"
        unfolding process_part_final[OF final] by auto
      with inv show ?thesis by simp
    qed
  next
    case unknown
    with inv show ?thesis by (simp add: process_part_unknown)
  qed
qed

lemma react_inv_foldl:
  "react_inv h s r \<Longrightarrow> react_inv h (foldl process_part s parts) r"
  by (induction parts arbitrary: s) (simp_all add: react_inv_process_part)

lemma react_inv_buffer:
  "react_inv h s r \<Longrightarrow> react_inv h (s\<lparr>buffer := b\<rparr>) r"
  by (auto simp: react_inv_def shown_text_def split: if_splits)

lemma react_inv_process_chunk:
  "react_inv h s r \<Longrightarrow> react_inv h (process_chunk s chunk) r"
  by (simp add: process_chunk_def Let_def react_inv_foldl react_inv_buffer)

lemma react_inv_run_reads:
  "react_inv h s r \<Longrightarrow>
   react_inv h (fst (run_reads s r reads)) (snd (run_reads s r reads))"
proof (induction reads arbitrary: s r)
  case Nil
  then show ?case by simp
next
  case (Cons a reads)
  obtain rendered chunk where a: "a = (rendered, chunk)" by (cases a)
  from Cons.prems have "react_inv h s (if rendered then render s r else r)"
    by (simp add: react_inv_render)
  then have "react_inv h (process_chunk s chunk) (if rendered then render s r else r)"
    by (rule react_inv_process_chunk)
  from Cons.IH[OF this] show ?case by (simp add: a)
qed

text \<open>
  The state of the handler and of React when the read that ends the stream is answered.
\<close>

lemma react_inv_at_end:
  "react_inv h (read_loop start_session (map snd reads))
     (if rendered
      then render (read_loop start_session (map snd reads))
             (snd (run_reads start_session \<lparr>chatHistory = h, published = [], applied = 0\<rparr> reads))
      else snd (run_reads start_session \<lparr>chatHistory = h, published = [], applied = 0\<rparr> reads))"
proof -
  have "react_inv h (read_loop start_session (map snd reads))
     (snd (run_reads start_session \<lparr>chatHistory = h, published = [], applied = 0\<rparr> reads))"
    using react_inv_run_reads[OF react_inv_start, of h reads]
    by (simp add: run_reads_fst)
  then show ?thesis by (simp add: react_inv_render)
qed

lemma stream_response_eq:
  "stream_response url h reads rendered ending =
     render
       (case ending of
          Done \<Rightarrow> mark_complete (flush_buffer (read_loop start_session (map snd reads)))
        | ReadError \<Rightarrow> catch_error url (read_loop start_session (map snd reads)))
       (if rendered
        then render (read_loop start_session (map snd reads))
               (snd (run_reads start_session
                  \<lparr>chatHistory = h, published = [], applied = 0\<rparr> reads))
        else snd (run_reads start_session
                  \<lparr>chatHistory = h, published = [], applied = 0\<rparr> reads))"
  by (cases ending) (simp_all add: stream_response_def Let_def case_prod_beta run_reads_fst)

section \<open>Completion and failure\<close>

lemma calls_flush_buffer [simp]: "calls (flush_buffer s) = calls s"
  by (simp add: flush_buffer_def Let_def)

lemma aiResponse_flush_prefix: "prefix (aiResponse s) (aiResponse (flush_buffer s))"
  by (cases "classify (trim (buffer s))") (simp_all add: aiResponse_flush_buffer)

lemma render_snoc:
  assumes "applied r \<le> length (calls s)" and "calls s' = calls s @ [u]"
  shows "render s' r =
     run_one (aiResponse s')
       (foldl (run_one (aiResponse s')) r (drop (applied r) (calls s))) u"
  using assms by (simp add: render_def)

lemma fallback_nonempty: "js ''No response generated.'' \<noteq> []"
  by (simp add: js_def)

lemma bubble_inv_ShowComplete:
  assumes inv: "bubble_inv h ai r"
  shows "chatHistory (run_one ai r ShowComplete) =
           h @ [\<lparr>role = Ai,
                  content = (if ai = [] then js ''No response generated.'' else ai),
                  isStreaming = False\<rparr>]"
    and "successively prefix (published_texts (run_one ai r ShowComplete))"
proof -
  let ?b = "\<lparr>role = Ai, content = content (last (chatHistory r)), isStreaming = True\<rparr>"
  let ?m = "\<lparr>role = Ai, content = (if ai = [] then js ''No response generated.'' else ai),
      isStreaming = False\<rparr>"
  from inv have hist: "chatHistory r = h @ [?b]"
    and pre: "prefix (content (last (chatHistory r))) ai"
    and pub: "published r \<noteq> []"
    and succ: "successively prefix (published_texts r)"
    by (simp_all add: bubble_inv_def)
  have r: "replaceLast ?m (chatHistory r) = h @ [?m]"
    by (subst hist) (simp add: replaceLast_snoc)
  have l: "last (published_texts r) = content (last (chatHistory r))"
    using inv by (rule bubble_inv_last_text)
  show "chatHistory (run_one ai r ShowComplete) = h @ [?m]"
    by (simp add: run_one_def Let_def r)
  have p: "prefix (last (published_texts r)) (content ?m)"
    unfolding l using pre by auto
  have "published_texts (run_one ai r ShowComplete) = published_texts r @ [content ?m]"
    by (simp add: run_one_def Let_def r published_texts_def)
  then show "successively prefix (published_texts (run_one ai r ShowComplete))"
    using succ p pub by (simp add: successively_append_iff published_texts_def)
qed

text \<open>The last render of a stream that ended without error.\<close>

lemma stream_response_Done:
  "\<exists>r1. bubble_inv h (aiResponse (flush_buffer (read_loop start_session (map snd reads)))) r1 \<and>
     stream_response url h reads rendered Done =
       run_one (aiResponse (flush_buffer (read_loop start_session (map snd reads)))) r1
         ShowComplete"
proof -
  let ?s = "read_loop start_session (map snd reads)"
  let ?q = "snd (run_reads start_session \<lparr>chatHistory = h, published = [], applied = 0\<rparr> reads)"
  let ?r = "if rendered then render ?s ?q else ?q"
  let ?ai = "aiResponse (flush_buffer ?s)"
  let ?p = "foldl (run_one ?ai) ?r (drop (applied ?r) (calls ?s))"
  have inv: "react_inv h ?s ?r" by (rule react_inv_at_end)
  have b: "bubble_inv h ?ai ?p"
    by (rule run_pending(1)[OF inv aiResponse_flush_prefix])
  have c: "calls (mark_complete (flush_buffer ?s)) = calls ?s @ [ShowComplete]"
    by (simp add: mark_complete_def setChatHistory_def)
  have a: "aiResponse (mark_complete (flush_buffer ?s)) = ?ai"
    by (simp add: mark_complete_def setChatHistory_def)
  have "stream_response url h reads rendered Done = run_one ?ai ?p ShowComplete"
    unfolding stream_response_eq transport_end.case
    using render_snoc[OF react_inv_applied[OF inv] c] by (simp only: a)
  with b show ?thesis by blast
qed

lemma chatHistory_Done:
  "chatHistory (stream_response url h reads rendered Done) =
     h @ [\<lparr>role = Ai,
            content =
              (if aiResponse (flush_buffer (read_loop start_session (map snd reads))) = []
               then js ''No response generated.''
               else aiResponse (flush_buffer (read_loop start_session (map snd reads)))),
            isStreaming = False\<rparr>]"
proof -
  from stream_response_Done[of h reads url rendered] obtain r1
    where b: "bubble_inv h (aiResponse (flush_buffer (read_loop start_session (map snd reads)))) r1"
      and e: "stream_response url h reads rendered Done =
        run_one (aiResponse (flush_buffer (read_loop start_session (map snd reads)))) r1
          ShowComplete"
    by blast
  show ?thesis unfolding e by (rule bubble_inv_ShowComplete(1)[OF b])
qed

lemma resolved_text_Done:
  "resolved_text (stream_response url h reads rendered Done) =
     (if aiResponse (flush_buffer (read_loop start_session (map snd reads))) = []
      then js ''No response generated.''
      else aiResponse (flush_buffer (read_loop start_session (map snd reads))))"
  by (simp add: resolved_text_def chatHistory_Done)

lemma successively_prefix_sorted_length:
  "successively prefix (ts :: jsstring list) \<Longrightarrow> sorted (map length ts)"
proof -
  assume "successively prefix ts"
  then have "sorted_wrt prefix ts"
    by (simp add: successively_conv_sorted_wrt transp_def)
  then have "sorted_wrt (\<lambda>a b. length a \<le> length b) ts"
    by (rule sorted_wrt_mono_rel[rotated]) (simp add: prefix_length_le)
  then show ?thesis by (simp add: sorted_map)
qed

text \<open>
  Claim C5 (monotone publication). For every sequence of reads of a stream that ends
  without error, and whenever React renders in between, each text that an updater
  publishes for the assistant message, from the placeholder to the completed message, has
  the text published before it as a prefix; so the lengths of the published texts never
  decrease.
\<close>

theorem published_texts_monotone:
  "successively prefix (published_texts (stream_response url h reads rendered Done)) \<and>
   sorted (map length (published_texts (stream_response url h reads rendered Done)))"
proof -
  from stream_response_Done[of h reads url rendered] obtain r1
    where b: "bubble_inv h (aiResponse (flush_buffer (read_loop start_session (map snd reads)))) r1"
      and e: "stream_response url h reads rendered Done =
        run_one (aiResponse (flush_buffer (read_loop start_session (map snd reads)))) r1
          ShowComplete"
    by blast
  have "successively prefix (published_texts (stream_response url h reads rendered Done))"
    unfolding e by (rule bubble_inv_ShowComplete(2)[OF b])
  then show ?thesis by (simp add: successively_prefix_sorted_length)
qed

text \<open>
  Two instances. Three Content records that arrive in one read are published by three
  updaters that React calls after the loop over the parts has ended: each of them reads
  the whole text. When each record arrives in a read of its own and React renders in
  between, the texts grow record by record.
\<close>

lemma published_texts_one_read:
  "published_texts (stream_response (js ''http://localhost:8000'') []
     [(True, js ''data: a'' @ [LF, LF] @ js ''data: b'' @ [LF, LF] @ js ''data: c'' @ [LF, LF])]
     True Done) =
   [[], js ''abc'', js ''abc'', js ''abc'', js ''abc'']"
  by code_simp

lemma published_texts_three_reads:
  "published_texts (stream_response (js ''http://localhost:8000'') []
     [(True, js ''data: a'' @ [LF, LF]), (True, js ''data: b'' @ [LF, LF]),
      (True, js ''data: c'' @ [LF, LF])]
     True Done) =
   [[], js ''a'', js ''ab'', js ''abc'', js ''abc'']"
  by code_simp

text \<open>
  Claim C4 (transport error during streaming). When the reader fails after any number of
  reads, the last history is the history that shows once the updaters of the loop have
  been called, followed by the error message, and it is the one history published after
  those of the loop. The history of the loop is the history from before the request
  followed by the assistant message, still marked as streaming, with the text
  accumulated so far (the empty text of the placeholder if the loop never published): the
  error message is added after it and does not take its place.
\<close>

theorem error_message_appended:
  "chatHistory (stream_response url h reads rendered ReadError) =
     chatHistory (render (read_loop start_session (map snd reads))
        (snd (run_reads start_session \<lparr>chatHistory = h, published = [], applied = 0\<rparr> reads)))
     @ [error_message url] \<and>
   chatHistory (render (read_loop start_session (map snd reads))
        (snd (run_reads start_session \<lparr>chatHistory = h, published = [], applied = 0\<rparr> reads))) =
     h @ [\<lparr>role = Ai, content = shown_text (read_loop start_session (map snd reads)),
            isStreaming = True\<rparr>] \<and>
   published (stream_response url h reads rendered ReadError) =
     published (render (read_loop start_session (map snd reads))
        (snd (run_reads start_session \<lparr>chatHistory = h, published = [], applied = 0\<rparr> reads)))
     @ [chatHistory (stream_response url h reads rendered ReadError)]"
proof -
  let ?s = "read_loop start_session (map snd reads)"
  let ?q = "snd (run_reads start_session \<lparr>chatHistory = h, published = [], applied = 0\<rparr> reads)"
  let ?r = "if rendered then render ?s ?q else ?q"
  have inv0: "react_inv h ?s ?q"
    using react_inv_at_end[of h reads False] by simp
  have inv: "react_inv h ?s ?r" by (rule react_inv_at_end)
  have rr: "render ?s ?r = render ?s ?q"
    using render_idem[OF react_inv_applied[OF inv0]] by simp
  have c: "calls (catch_error url ?s) = calls ?s @ [AppendMessage (error_message url)]"
    and a: "aiResponse (catch_error url ?s) = aiResponse ?s"
    by (simp_all add: catch_error_def setChatHistory_def)
  have "stream_response url h reads rendered ReadError =
      run_one (aiResponse ?s) (render ?s ?r) (AppendMessage (error_message url))"
    unfolding stream_response_eq transport_end.case
    using render_snoc[OF react_inv_applied[OF inv] c] by (simp only: a render_def)
  then have R: "stream_response url h reads rendered ReadError =
      run_one (aiResponse ?s) (render ?s ?q) (AppendMessage (error_message url))"
    by (simp only: rr)
  show ?thesis
    unfolding R by (simp add: run_one_def Let_def react_inv_rendered[OF inv0])
qed

text \<open>
  An instance: after the chunk \<^verbatim>\<open>data: Hi\<close> closed by a blank line and a failing read,
  the history holds the streaming message with the text \<^verbatim>\<open>Hi\<close> and, after it, the
  error message.
\<close>

theorem partial_message_kept_on_error:
  "chatHistory (stream_response (js ''http://localhost:8000'') []
      [(True, js ''data: Hi'' @ [LF, LF])] True ReadError) =
     [\<lparr>role = Ai, content = js ''Hi'', isStreaming = True\<rparr>,
      error_message (js ''http://localhost:8000'')]"
  by code_simp

section \<open>The completed message\<close>

lemma list_all_takeWhile:
  "list_all P xs \<Longrightarrow> list_all P (takeWhile Q xs)"
  by (induction xs) simp_all

lemma completed_text_nonempty:
  "resolved_text (stream_response url h reads rendered Done) \<noteq> []"
  by (simp add: resolved_text_Done fallback_nonempty)

text \<open>
  The fallback text is shown when no complete record is a Content record or a Final record
  that passes the test of the loop, and the remainder is neither a Content nor a Final
  record.
\<close>

lemma fallback_without_text:
  assumes all: "list_all (\<lambda>e. \<not> is_content e \<and> \<not> usable_final e)
      (butlast (events (map snd reads)))"
    and nc: "\<not> is_content (last (events (map snd reads)))"
    and nf: "\<not> is_final (last (events (map snd reads)))"
  shows "resolved_text (stream_response url h reads rendered Done) =
           js ''No response generated.''"
proof -
  let ?s1 = "read_loop start_session (map snd reads)"
  from all have l1: "list_all (\<lambda>e. \<not> is_content e) (butlast (events (map snd reads)))"
    and l2: "list_all (\<lambda>e. \<not> usable_final e) (butlast (events (map snd reads)))"
    by (simp_all add: list_all_iff)
  have "aiResponse ?s1 = []"
    using read_loop_aiResponse[OF list_all_takeWhile[OF l2]] content_texts_none[OF l1]
    by simp
  moreover have "classify (trim (buffer ?s1)) = last (events (map snd reads))"
    by (simp add: read_loop_buffer events_last)
  ultimately have "aiResponse (flush_buffer ?s1) = []"
    using nc nf
    by (cases "last (events (map snd reads))") (simp_all add: aiResponse_flush_buffer)
  then show ?thesis by (simp add: resolved_text_Done)
qed

text \<open>
  Claim C6 (the completed message is never empty, and is the fallback text when nothing was
  produced). The completed text is never empty (\<open>completed_text_nonempty\<close>), and it is the
  fallback text when the remainder is no Final record (\<open>fallback_without_text\<close>). But a
  stream that is the single record \<^verbatim>\<open>final: No response\<close> without a closing blank line has
  no Content record and no Final record with a usable payload, and its completed text is
  \<^verbatim>\<open>No response\<close>, not \<^verbatim>\<open>No response generated.\<close>: the flush takes the payload over
  without the test for the sentinel that the loop makes.
\<close>

theorem fallback_missed_for_unterminated_sentinel:
  "list_all (\<lambda>e. \<not> is_content e \<and> \<not> usable_final e)
     (events (map snd [(True, js ''final: No response'')])) \<and>
   resolved_text (stream_response (js ''http://localhost:8000'') []
     [(True, js ''final: No response'')] True Done) = js ''No response'' \<and>
   js ''No response'' \<noteq> js ''No response generated.''"
  by code_simp

text \<open>
  Claim C2 (Content wins over Final). For every stream that ends without error and has a
  Content record, and whenever React renders, the completed text is the concatenation, in order, of the unescaped
  Content payloads, provided no Final record that passes the test of the loop (payload
  neither empty nor \<^verbatim>\<open>No response\<close>) comes before the first Content record. Final records
  after the first Content record never change the text.
\<close>

theorem content_wins_over_later_final:
  assumes "list_ex is_content (events (map snd reads))"
    and "list_all (\<lambda>e. \<not> usable_final e)
           (takeWhile (\<lambda>e. \<not> is_content e) (events (map snd reads)))"
  shows "resolved_text (stream_response url h reads rendered Done) =
           concat (content_texts (events (map snd reads)))"
proof -
  let ?s1 = "read_loop start_session (map snd reads)"
  let ?em = "butlast (events (map snd reads))"
  let ?el = "last (events (map snd reads))"
  have ev: "events (map snd reads) = ?em @ [?el]" by (rule events_snoc)
  have em: "?em = map (\<lambda>p. classify (trim p)) (butlast (split (concat (map snd reads))))"
    by (rule events_butlast)
  have cl: "classify (trim (buffer ?s1)) = ?el"
    by (simp add: read_loop_buffer events_last)
  have ct: "content_texts (events (map snd reads)) = content_texts ?em @ content_texts [?el]"
    by (subst ev) (rule content_texts_append)
  have "aiResponse (flush_buffer ?s1) = concat (content_texts (events (map snd reads))) \<and>
        aiResponse (flush_buffer ?s1) \<noteq> []"
  proof (cases "list_ex is_content ?em")
    case True
    then have "\<exists>e\<in>set ?em. \<not> \<not> is_content e" by (simp add: list_ex_iff)
    then have "takeWhile (\<lambda>e. \<not> is_content e) (?em @ [?el]) =
        takeWhile (\<lambda>e. \<not> is_content e) ?em"
      by (auto intro: takeWhile_append1)
    with assms(2) ev
    have "list_all (\<lambda>e. \<not> usable_final e) (takeWhile (\<lambda>e. \<not> is_content e) ?em)"
      by simp
    then have ai1: "aiResponse ?s1 = concat (content_texts ?em)"
      by (rule read_loop_aiResponse)
    have ne: "concat (content_texts ?em) \<noteq> []"
      using True content_texts_nonempty[of "butlast (split (concat (map snd reads)))"]
      by (simp add: em)
    from ai1 ne have ai_ne: "aiResponse ?s1 \<noteq> []" by simp
    have "aiResponse (flush_buffer ?s1) = aiResponse ?s1 @ concat (content_texts [?el])"
      using ai_ne cl by (cases ?el) (simp_all add: aiResponse_flush_buffer)
    with ai1 ai_ne show ?thesis by (simp add: ct)
  next
    case False
    then have none: "list_all (\<lambda>e. \<not> is_content e) ?em"
      by (simp add: list_ex_iff list_all_iff)
    from assms(1) have "list_ex is_content (?em @ [?el])" by (subst ev[symmetric])
    with False have last_content: "is_content ?el" by (simp add: list_ex_iff)
    from none have "\<forall>e\<in>set ?em. \<not> is_content e" by (simp add: list_all_iff)
    then have "takeWhile (\<lambda>e. \<not> is_content e) (?em @ [?el]) =
        ?em @ takeWhile (\<lambda>e. \<not> is_content e) [?el]"
      by (simp add: takeWhile_append2)
    with last_content have "takeWhile (\<lambda>e. \<not> is_content e) (?em @ [?el]) = ?em"
      by simp
    with assms(2) ev have "list_all (\<lambda>e. \<not> usable_final e) ?em" by simp
    then have "aiResponse ?s1 = concat (content_texts ?em)"
      by (intro read_loop_aiResponse list_all_takeWhile)
    with content_texts_none[OF none] have ai1: "aiResponse ?s1 = []" by simp
    from last_content obtain p where p: "?el = Content p" by (cases ?el) simp_all
    with cl have "classify (trim (buffer ?s1)) = Content p" by simp
    then have "p \<noteq> []" by (rule classify_Content_nonempty)
    then show ?thesis
      using ai1 cl p content_texts_none[OF none]
      by (simp add: aiResponse_flush_buffer ct)
  qed
  then have "aiResponse (flush_buffer ?s1) \<noteq> []"
    and "aiResponse (flush_buffer ?s1) = concat (content_texts (events (map snd reads)))"
    by blast+
  then show ?thesis by (simp only: resolved_text_Done if_False)
qed

theorem content_wins_over_later_final_witness:
  "list_ex is_content
     (events (map snd [(True, js ''data: He''),
        (False, js ''llo'' @ [LF, LF] @ js ''final: ignored text'' @ [LF, LF])])) \<and>
   list_all (\<lambda>e. \<not> usable_final e)
     (takeWhile (\<lambda>e. \<not> is_content e)
        (events (map snd [(True, js ''data: He''),
        (False, js ''llo'' @ [LF, LF] @ js ''final: ignored text'' @ [LF, LF])]))) \<and>
   resolved_text (stream_response (js ''http://localhost:8000'') []
     [(True, js ''data: He''),
      (False, js ''llo'' @ [LF, LF] @ js ''final: ignored text'' @ [LF, LF])] True Done) =
     js ''Hello''"
proof -
  let ?c = "[(True, js ''data: He''),
      (False, js ''llo'' @ [LF, LF] @ js ''final: ignored text'' @ [LF, LF])]"
  have h1: "list_ex is_content (events (map snd ?c))" by code_simp
  have h2: "list_all (\<lambda>e. \<not> usable_final e)
      (takeWhile (\<lambda>e. \<not> is_content e) (events (map snd ?c)))" by code_simp
  have e: "concat (content_texts (events (map snd ?c))) = js ''Hello''" by code_simp
  from content_wins_over_later_final[OF h1 h2, of "js ''http://localhost:8000''" "[]" True] h1 h2 e
  show ?thesis by (simp only: simp_thms)
qed

text \<open>
  Without the proviso the text is not the concatenation of the Content payloads: a Final
  record \<^verbatim>\<open>final: X\<close> that comes first is taken over by line 323, the later Content
  record \<^verbatim>\<open>data: Y\<close> is appended to it, and the completed text is \<^verbatim>\<open>XY\<close>.
\<close>

theorem final_before_content_is_kept:
  "list_ex is_content
     (events (map snd [(True, js ''final: X'' @ [LF, LF] @ js ''data: Y'' @ [LF, LF])])) \<and>
   concat (content_texts
     (events (map snd [(True, js ''final: X'' @ [LF, LF] @ js ''data: Y'' @ [LF, LF])]))) =
     js ''Y'' \<and>
   resolved_text (stream_response (js ''http://localhost:8000'') []
     [(True, js ''final: X'' @ [LF, LF] @ js ''data: Y'' @ [LF, LF])] True Done) = js ''XY''"
  by code_simp


section \<open>The sentinel of a Final record\<close>

lemma sentinel_in_loop:
  "process_part s (js ''final: No response'') = s"
proof -
  have "trim (js ''final: No response'') = js ''final: No response''" by code_simp
  moreover have "startsWith (js ''final: No response'') (js ''final: '')" by code_simp
  moreover have "trim (drop 7 (js ''final: No response'')) = js ''No response''" by code_simp
  ultimately show ?thesis by (simp add: process_part_final)
qed

text \<open>
  Claim C1 (sentinel suppression). In the loop a Final record with the payload
  \<^verbatim>\<open>No response\<close> is ignored (\<open>sentinel_in_loop\<close>). The flush of the remaining buffer does
  not compare the payload with the sentinel: a stream that is the single record
  \<^verbatim>\<open>final: No response\<close> without a closing blank line resolves to \<^verbatim>\<open>No response\<close>,
  while the same record closed by a blank line resolves to \<^verbatim>\<open>No response generated.\<close>.
\<close>

theorem sentinel_not_suppressed_in_flush:
  "resolved_text (stream_response (js ''http://localhost:8000'') []
      [(True, js ''final: No response'')] True Done) = js ''No response'' \<and>
   resolved_text (stream_response (js ''http://localhost:8000'') []
      [(True, js ''final: No response'' @ [LF, LF])] True Done) = js ''No response generated.''"
  by code_simp

end
